theory Spec2Isabelle
  imports Main "HOL-Library.Word" "HOL-Library.Code_Target_Numeral"
begin

unbundle bit_operations_syntax

section \<open>Ed25519 signatures (sign/ed25519/ed25519.go)\<close>

text \<open>
  A shallow embedding of the Go package \<open>ed25519\<close>. Bytes are \<open>8 word\<close>, \<open>uint64\<close>
  is \<open>64 word\<close>, a byte slice that is only read is the list of its elements, the array
  \<open>[8]uint64\<close> is a list of eight words, and every runtime panic of the Go code is a
  value \<open>Inl p\<close> of a sum type.
\<close>

subsection \<open>Basic types\<close>

type_synonym byte = "8 word"
type_synonym uint64 = "64 word"

datatype panic =
    IndexOutOfRange
  | SliceBoundsOutOfRange
  | BadPrivateKeyLength
  | BadPublicKeyLength

text \<open>\<open>const Size = 32\<close>: the length in bytes of Ed25519 keys.\<close>

definition Size :: nat where
  "Size = 32"

subsection \<open>The order of the curve and little-endian integers\<close>

text \<open>
  The prime order of the base point, \<open>2^252 + 27742317777372353535851937790883648493\<close>.
\<close>

definition ell :: nat where
  "ell = 2 ^ 252 + 27742317777372353535851937790883648493"

text \<open>The integer a byte string denotes, least significant byte first.\<close>

fun le_nat :: "byte list \<Rightarrow> nat" where
  "le_nat [] = 0"
| "le_nat (b # bs) = unat b + 256 * le_nat bs"

text \<open>The \<open>n\<close>-byte little-endian encoding of a number (its low \<open>8 n\<close> bits).\<close>

fun le_bytes :: "nat \<Rightarrow> nat \<Rightarrow> byte list" where
  "le_bytes 0 v = []"
| "le_bytes (Suc n) v = word_of_nat v # le_bytes n (v div 256)"

text \<open>The integer a little-endian array of 64-bit limbs denotes.\<close>

fun limbs_nat :: "uint64 list \<Rightarrow> nat" where
  "limbs_nat [] = 0"
| "limbs_nat (w # ws) = unat w + 2 ^ 64 * limbs_nat ws"

text \<open>
  Modelled from the spec: \<open>curve.order\<close>, the table entry that \<open>Verify\<close> compares the
  scalar half of a signature with. Its declaration is not part of the file; it holds the
  order of the curve as a little-endian byte string.
\<close>

definition curve_order :: "byte list" where
  "curve_order = le_bytes Size ell"

subsection \<open>Package \<open>math/bits\<close> and \<open>encoding/binary\<close>\<close>

text \<open>
  \<open>bits.Mul64\<close> returns the 128-bit product as (hi, lo); \<open>bits.Add64\<close> returns the sum
  with carry and the carry out; \<open>bits.Sub64\<close> returns the difference with borrow and the
  borrow out.
\<close>

definition Mul64 :: "uint64 \<Rightarrow> uint64 \<Rightarrow> uint64 \<times> uint64" where
  "Mul64 x y = (let p = unat x * unat y in (word_of_nat (p div 2 ^ 64), word_of_nat p))"

definition Add64 :: "uint64 \<Rightarrow> uint64 \<Rightarrow> uint64 \<Rightarrow> uint64 \<times> uint64" where
  "Add64 x y carry =
     (let s = unat x + unat y + unat carry in (word_of_nat s, word_of_nat (s div 2 ^ 64)))"

definition Sub64 :: "uint64 \<Rightarrow> uint64 \<Rightarrow> uint64 \<Rightarrow> uint64 \<times> uint64" where
  "Sub64 x y borrow =
     (x - y - borrow, if unat x < unat y + unat borrow then 1 else 0)"

text \<open>
  \<open>binary.LittleEndian.Uint64(b)\<close> reads \<open>b[0..7]\<close>;
  \<open>binary.LittleEndian.PutUint64(b, v)\<close> writes them.
\<close>

definition Uint64 :: "byte list \<Rightarrow> uint64" where
  "Uint64 b =
     ucast (b ! 0) OR push_bit 8 (ucast (b ! 1)) OR push_bit 16 (ucast (b ! 2))
     OR push_bit 24 (ucast (b ! 3)) OR push_bit 32 (ucast (b ! 4))
     OR push_bit 40 (ucast (b ! 5)) OR push_bit 48 (ucast (b ! 6))
     OR push_bit 56 (ucast (b ! 7))"

definition PutUint64 :: "uint64 \<Rightarrow> byte list" where
  "PutUint64 v =
     [ucast v, ucast (drop_bit 8 v), ucast (drop_bit 16 v), ucast (drop_bit 24 v),
      ucast (drop_bit 32 v), ucast (drop_bit 40 v), ucast (drop_bit 48 v),
      ucast (drop_bit 56 v)]"

text \<open>The slice expression \<open>b[lo:hi]\<close> of a slice whose capacity is its length.\<close>

definition subslice :: "byte list \<Rightarrow> nat \<Rightarrow> nat \<Rightarrow> byte list" where
  "subslice b lo hi = take (hi - lo) (drop lo b)"

subsection \<open>Reduction modulo the order: \<open>red512\<close>\<close>

definition ell0 :: uint64 where "ell0 = 0x5812631a5cf5d3ed"
definition ell1 :: uint64 where "ell1 = 0x14def9dea2f79cd6"
definition ell160 :: uint64 where "ell160 = 0x812631a5cf5d3ed0"
definition ell161 :: uint64 where "ell161 = 0x4def9dea2f79cd65"
definition ell162 :: uint64 where "ell162 = 0x0000000000000001"

type_synonym limbs5 = "uint64 \<times> uint64 \<times> uint64 \<times> uint64 \<times> uint64"
type_synonym limbs4 = "uint64 \<times> uint64 \<times> uint64 \<times> uint64"

text \<open>
  One pass of the loop \<open>for i := 0; i < 3; i++\<close> of \<open>red512\<close>, on the variables
  \<open>r0..r4\<close> and \<open>q0..q3\<close> that live across iterations.
\<close>

definition red512_iter :: "nat \<Rightarrow> limbs5 \<times> limbs4 \<Rightarrow> limbs5 \<times> limbs4" where
  "red512_iter i st =
    (case st of ((r0, r1, r2, r3, r4), (q0, q1, q2, q3)) \<Rightarrow>
     let (h0, s0) = Mul64 q0 ell160;
         (h1, s1) = Mul64 q1 ell160;
         (h2, s2) = Mul64 q2 ell160;
         (h3, s3) = Mul64 q3 ell160;
         (s1, c0) = Add64 h0 s1 0;
         (s2, c1) = Add64 h1 s2 c0;
         (s3, c2) = Add64 h2 s3 c1;
         (s4, _) = Add64 h3 0 c2;
         (h0, l0) = Mul64 q0 ell161;
         (h1, l1) = Mul64 q1 ell161;
         (h2, l2) = Mul64 q2 ell161;
         (h3, l3) = Mul64 q3 ell161;
         (l1, c0) = Add64 h0 l1 0;
         (l2, c1) = Add64 h1 l2 c0;
         (l3, c2) = Add64 h2 l3 c1;
         (l4, _) = Add64 h3 0 c2;
         (s1, c0) = Add64 s1 l0 0;
         (s2, c1) = Add64 s2 l1 c0;
         (s3, c2) = Add64 s3 l2 c1;
         (s4, c3) = Add64 s4 l3 c2;
         (s5, s6) = Add64 l4 0 c3;
         (s2, c0) = Add64 s2 q0 0;
         (s3, c1) = Add64 s3 q1 c0;
         (s4, c2) = Add64 s4 q2 c1;
         (s5, c3) = Add64 s5 q3 c2;
         (s6, s7) = Add64 s6 0 c3;
         q = q0 OR q1 OR q2 OR q3;
         m = - (drop_bit 63 (q OR (- q)));
         s0 = s0 AND m;
         s1 = s1 AND m;
         s2 = s2 AND m;
         s3 = s3 AND m
     in if (i + 1) mod 2 = 0 then
          let (r0, c0) = Add64 r0 s0 0;
              (r1, c1) = Add64 r1 s1 c0;
              (r2, c2) = Add64 r2 s2 c1;
              (r3, c3) = Add64 r3 s3 c2;
              (r4, _) = Add64 r4 0 c3
          in ((r0, r1, r2, r3, r4), (s4, s5, s6, s7))
        else
          let (r0, c0) = Sub64 r0 s0 0;
              (r1, c1) = Sub64 r1 s1 c0;
              (r2, c2) = Sub64 r2 s2 c1;
              (r3, c3) = Sub64 r3 s3 c2;
              (r4, _) = Sub64 r4 0 c3
          in ((r0, r1, r2, r3, r4), (s4, s5, s6, s7)))"

text \<open>The branch \<open>if full { ... }\<close>: three passes, then the masked addition.\<close>

definition red512_full :: "limbs4 \<Rightarrow> limbs4 \<Rightarrow> limbs5" where
  "red512_full r q =
    (case r of (r0, r1, r2, r3) \<Rightarrow>
     case fold red512_iter [0, 1, 2] ((r0, r1, r2, r3, 0), q) of
       ((r0, r1, r2, r3, r4), _) \<Rightarrow>
     let m = - (drop_bit 63 r4);
         (r0, c0) = Add64 r0 (m AND ell160) 0;
         (r1, c1) = Add64 r1 (m AND ell161) c0;
         (r2, c2) = Add64 r2 (m AND ell162) c1;
         (r3, c3) = Add64 r3 0 c2;
         (r4, _) = Add64 r4 (m AND 1) c3
     in (r0, r1, r2, r3, r4))"

text \<open>The statements after the branch, common to both modes.\<close>

definition red512_short :: "limbs5 \<Rightarrow> limbs4" where
  "red512_short r =
    (case r of (r0, r1, r2, r3, r4) \<Rightarrow>
     let q0 = push_bit 4 r4 OR drop_bit 60 r3;
         r3 = r3 AND (push_bit 60 1 - 1);
         (h0, s0) = Mul64 ell0 q0;
         (h1, s1) = Mul64 ell1 q0;
         (s1, c0) = Add64 h0 s1 0;
         (s2, _) = Add64 h1 0 c0;
         (r0, c0) = Sub64 r0 s0 0;
         (r1, c1) = Sub64 r1 s1 c0;
         (r2, c2) = Sub64 r2 s2 c1;
         (r3, _) = Sub64 r3 0 c2
     in (r0, r1, r2, r3))"

text \<open>
  \<open>red512(x *[8]uint64, full bool)\<close>; the result is the array \<open>x\<close> after the call.
\<close>

definition red512 :: "uint64 list \<Rightarrow> bool \<Rightarrow> uint64 list" where
  "red512 x full =
    (let (r, x) =
       (if full then
          (red512_full (x ! 0, x ! 1, x ! 2, x ! 3) (x ! 4, x ! 5, x ! 6, x ! 7),
           x[4 := 0, 5 := 0, 6 := 0, 7 := 0])
        else ((x ! 0, x ! 1, x ! 2, x ! 3, 0), x))
     in case red512_short r of (r0, r1, r2, r3) \<Rightarrow> x[0 := r0, 1 := r1, 2 := r2, 3 := r3])"

subsection \<open>Scalars as byte strings: \<open>clamp\<close>, \<open>reduceModOrder\<close>, \<open>calculateS\<close>, \<open>isLessThan\<close>\<close>

text \<open>
  \<open>clamp(k []byte)\<close>: two indexed updates, each of which panics when the index is not
  below \<open>len(k)\<close>. The result is \<open>k\<close> after the call.
\<close>

definition clamp :: "byte list \<Rightarrow> panic + byte list" where
  "clamp k =
     (if length k \<le> 0 then Inl IndexOutOfRange
      else let k = k[0 := k ! 0 AND 248]
           in if length k \<le> Size - 1 then Inl IndexOutOfRange
              else Inr (k[Size - 1 := (k ! (Size - 1) AND 127) OR 64]))"

text \<open>Overwriting \<open>k[lo : lo + len(bs)]\<close> with \<open>bs\<close>.\<close>

definition put_slice :: "byte list \<Rightarrow> nat \<Rightarrow> byte list \<Rightarrow> byte list" where
  "put_slice k lo bs = take lo k @ bs @ drop (lo + length bs) k"

text \<open>
  The two loops of \<open>reduceModOrder\<close>. The first one indexes the array \<open>X\<close> of eight
  words with \<open>i < numWords\<close>, which panics for a \<open>k\<close> of 72 bytes or more.
\<close>

function reduceModOrder_load ::
  "byte list \<Rightarrow> nat \<Rightarrow> nat \<Rightarrow> uint64 list \<Rightarrow> panic + uint64 list" where
  "reduceModOrder_load k numWords i X =
     (if i < numWords then
        (if length X \<le> i then Inl IndexOutOfRange
         else reduceModOrder_load k numWords (i + 1)
                (X[i := Uint64 (subslice k (i * 8) ((i + 1) * 8))]))
      else Inr X)"
  by pat_completeness auto
termination
  by (relation "measure (\<lambda>(k, numWords, i, X). numWords - i)") auto

declare reduceModOrder_load.simps [simp del]

function reduceModOrder_store ::
  "uint64 list \<Rightarrow> nat \<Rightarrow> nat \<Rightarrow> byte list \<Rightarrow> byte list" where
  "reduceModOrder_store X numWords i k =
     (if i < numWords then
        reduceModOrder_store X numWords (i + 1) (put_slice k (i * 8) (PutUint64 (X ! i)))
      else k)"
  by pat_completeness auto
termination
  by (relation "measure (\<lambda>(X, numWords, i, k). numWords - i)") auto

declare reduceModOrder_store.simps [simp del]

text \<open>
  \<open>reduceModOrder(k []byte, is512Bit bool)\<close>; the result is \<open>k\<close> after the call.
\<close>

definition reduceModOrder :: "byte list \<Rightarrow> bool \<Rightarrow> panic + byte list" where
  "reduceModOrder k is512Bit =
     (let numWords = length k div 8
      in case reduceModOrder_load k numWords 0 (replicate 8 0) of
           Inl e \<Rightarrow> Inl e
         | Inr X \<Rightarrow> Inr (reduceModOrder_store (red512 X is512Bit) numWords 0 k))"

text \<open>
  One pass of the loop \<open>for i := range K\<close> of \<open>calculateS\<close>, on the accumulator \<open>S\<close>.
\<close>

definition calculateS_iter :: "uint64 list \<Rightarrow> byte list \<Rightarrow> nat \<Rightarrow> uint64 list \<Rightarrow> uint64 list" where
  "calculateS_iter K a i S =
    (let ai = Uint64 (subslice a (i * 8) ((i + 1) * 8));
         (h0, l0) = Mul64 (K ! 0) ai;
         (h1, l1) = Mul64 (K ! 1) ai;
         (h2, l2) = Mul64 (K ! 2) ai;
         (h3, l3) = Mul64 (K ! 3) ai;
         (l1, c0) = Add64 h0 l1 0;
         (l2, c1) = Add64 h1 l2 c0;
         (l3, c2) = Add64 h2 l3 c1;
         (l4, _) = Add64 h3 0 c2;
         (v0, c0) = Add64 (S ! (i + 0)) l0 0;
         S = S[i + 0 := v0];
         (v1, c1) = Add64 (S ! (i + 1)) l1 c0;
         S = S[i + 1 := v1];
         (v2, c2) = Add64 (S ! (i + 2)) l2 c1;
         S = S[i + 2 := v2];
         (v3, c3) = Add64 (S ! (i + 3)) l3 c2;
         S = S[i + 3 := v3];
         (v4, _) = Add64 (S ! (i + 4)) l4 c3
     in S[i + 4 := v4])"

text \<open>
  \<open>calculateS(s, r, k, a []byte)\<close>; the result is \<open>s\<close> after the call. Every slice
  expression \<open>x[8 j : 8 (j + 1)]\<close> with \<open>j < 4\<close> panics on a slice shorter than 32 bytes.
\<close>

definition calculateS ::
  "byte list \<Rightarrow> byte list \<Rightarrow> byte list \<Rightarrow> byte list \<Rightarrow> panic + byte list" where
  "calculateS s r k a =
    (if length k < 4 * 8 \<or> length r < 4 * 8 \<or> length a < 4 * 8 \<or> length s < 4 * 8
     then Inl SliceBoundsOutOfRange
     else
       let K = [Uint64 (subslice k (0 * 8) (1 * 8)), Uint64 (subslice k (1 * 8) (2 * 8)),
                Uint64 (subslice k (2 * 8) (3 * 8)), Uint64 (subslice k (3 * 8) (4 * 8))];
           S = [Uint64 (subslice r (0 * 8) (1 * 8)), Uint64 (subslice r (1 * 8) (2 * 8)),
                Uint64 (subslice r (2 * 8) (3 * 8)), Uint64 (subslice r (3 * 8) (4 * 8)),
                0, 0, 0, 0];
           S = fold (calculateS_iter K a) [0, 1, 2, 3] S;
           S = red512 S True;
           s = put_slice s (0 * 8) (PutUint64 (S ! 0));
           s = put_slice s (1 * 8) (PutUint64 (S ! 1));
           s = put_slice s (2 * 8) (PutUint64 (S ! 2));
           s = put_slice s (3 * 8) (PutUint64 (S ! 3))
       in Inr s)"

text \<open>
  \<open>isLessThan(x, y []byte)\<close>. The loop \<open>for i > 0 && x[i] == y[i] { i-- }\<close> returns the
  index it stops at; reading \<open>x[i]\<close> or \<open>y[i]\<close> beyond the length panics.
\<close>

fun isLessThan_loop :: "byte list \<Rightarrow> byte list \<Rightarrow> nat \<Rightarrow> panic + nat" where
  "isLessThan_loop x y i =
     (if i > 0 then
        (if length x \<le> i \<or> length y \<le> i then Inl IndexOutOfRange
         else if x ! i = y ! i then isLessThan_loop x y (i - 1)
         else Inr i)
      else Inr i)"

declare isLessThan_loop.simps [simp del]

definition isLessThan :: "byte list \<Rightarrow> byte list \<Rightarrow> panic + bool" where
  "isLessThan x y =
     (case isLessThan_loop x y (Size - 1) of
        Inl e \<Rightarrow> Inl e
      | Inr i \<Rightarrow>
          if length x \<le> i \<or> length y \<le> i then Inl IndexOutOfRange
          else Inr (x ! i < y ! i))"

subsection \<open>Collaborators: SHA-512 and the curve\<close>

text \<open>
  \<open>crypto/sha512\<close> and the methods of \<open>pointR1\<close> are called by this file and defined
  elsewhere, so the functions below take them as a parameter: a 64-byte digest is a
  \<open>512 word\<close>, the 32-byte encoding that \<open>ToBytes\<close> writes is a \<open>256 word\<close>, a point is
  a value of any type \<open>'p\<close>, and \<open>FromBytes\<close> returning \<open>false\<close> is \<open>None\<close>.
  \<open>doubleMult E P n m\<close> is the receiver after \<open>Q.doubleMult(&P, n, m)\<close>.
\<close>

record 'p collaborators =
  Sum512 :: "byte list \<Rightarrow> 512 word"
  fixedMult :: "byte list \<Rightarrow> 'p"
  doubleMult :: "'p \<Rightarrow> byte list \<Rightarrow> byte list \<Rightarrow> 'p"
  neg :: "'p \<Rightarrow> 'p"
  ToBytes :: "'p \<Rightarrow> 256 word"
  FromBytes :: "byte list \<Rightarrow> 'p option"

text \<open>The first \<open>n\<close> bytes of a word, least significant first.\<close>

definition word_bytes :: "nat \<Rightarrow> 'a::len word \<Rightarrow> byte list" where
  "word_bytes n w = map (\<lambda>i. ucast (drop_bit (8 * i) w)) [0..<n]"

text \<open>
  \<open>sha512.Sum512(data)\<close>, and as well \<open>H.Sum(nil)\<close> after the writes that make up
  \<open>data\<close> on a fresh or reset \<open>H\<close>.
\<close>

definition sha512_Sum512 :: "'p collaborators \<Rightarrow> byte list \<Rightarrow> byte list" where
  "sha512_Sum512 E data = word_bytes 64 (Sum512 E data)"

subsection \<open>Keys, signing and verification\<close>

text \<open>\<open>type KeyPair struct{ private, public [Size]byte }\<close>, as a value.\<close>

record KeyPair =
  private_key :: "byte list"
  public_key :: "byte list"

text \<open>\<open>NewKeyFromSeed(private PrivateKey) *KeyPair\<close>.\<close>

definition NewKeyFromSeed :: "'p collaborators \<Rightarrow> byte list \<Rightarrow> panic + KeyPair" where
  "NewKeyFromSeed E private =
    (if length private \<noteq> Size then Inl BadPrivateKeyLength
     else
       case clamp (sha512_Sum512 E private) of
         Inl e \<Rightarrow> Inl e
       | Inr k \<Rightarrow>
          (case reduceModOrder (subslice k 0 Size) False of
             Inl e \<Rightarrow> Inl e
           | Inr k' \<Rightarrow>
               let k = put_slice k 0 k';
                   P = fixedMult E (subslice k 0 Size)
               in Inr \<lparr>private_key = subslice private 0 Size,
                       public_key = word_bytes Size (ToBytes E P)\<rparr>))"

text \<open>
  \<open>Sign(k *KeyPair, message []byte) []byte\<close>, in two parts. \<open>Sign_scalars\<close> is the
  body up to the second \<open>reduceModOrder\<close>; it returns the slice \<open>signature\<close> and the
  three arguments \<open>r[:Size]\<close>, \<open>hRAM[:Size]\<close>, \<open>h[:Size]\<close> that the call of
  \<open>calculateS\<close> receives. \<open>Sign\<close> is that call and the return.
\<close>

definition Sign_scalars ::
  "'p collaborators \<Rightarrow> KeyPair \<Rightarrow> byte list \<Rightarrow>
     panic + (byte list \<times> byte list \<times> byte list \<times> byte list)" where
  "Sign_scalars E k message =
    (case clamp (sha512_Sum512 E (private_key k)) of
       Inl e \<Rightarrow> Inl e
     | Inr h \<Rightarrow>
        (case reduceModOrder (sha512_Sum512 E (drop Size h @ message)) True of
           Inl e \<Rightarrow> Inl e
         | Inr r \<Rightarrow>
             let P = fixedMult E (subslice r 0 Size);
                 signature = replicate (2 * Size) 0;
                 signature = put_slice signature 0 (word_bytes Size (ToBytes E P))
             in (case reduceModOrder
                        (sha512_Sum512 E (subslice signature 0 Size @ public_key k @ message))
                        True of
                   Inl e \<Rightarrow> Inl e
                 | Inr hRAM \<Rightarrow>
                     Inr (signature, subslice r 0 Size, subslice hRAM 0 Size, subslice h 0 Size))))"

definition Sign :: "'p collaborators \<Rightarrow> KeyPair \<Rightarrow> byte list \<Rightarrow> panic + byte list" where
  "Sign E k message =
    (case Sign_scalars E k message of
       Inl e \<Rightarrow> Inl e
     | Inr (signature, r, hRAM, a) \<Rightarrow>
         (case calculateS (drop Size signature) r hRAM a of
            Inl e \<Rightarrow> Inl e
          | Inr s \<Rightarrow> Inr (put_slice signature Size s)))"

text \<open>\<open>Verify(public PublicKey, message, sig []byte) bool\<close>.\<close>

definition Verify ::
  "'p collaborators \<Rightarrow> byte list \<Rightarrow> byte list \<Rightarrow> byte list \<Rightarrow> panic + bool" where
  "Verify E public message sig =
    (if length public \<noteq> Size then Inl BadPublicKeyLength
     else if length sig < Size then Inl SliceBoundsOutOfRange
     else
       case isLessThan (drop Size sig) (subslice curve_order 0 Size) of
         Inl e \<Rightarrow> Inl e
       | Inr isLtOrder \<Rightarrow>
           if \<not> isLtOrder then Inr False
           else
             (case FromBytes E public of
                None \<Rightarrow> Inr False
              | Some P \<Rightarrow>
                 (case reduceModOrder
                         (sha512_Sum512 E (subslice sig 0 Size @ public @ message)) True of
                    Inl e \<Rightarrow> Inl e
                  | Inr hRAM \<Rightarrow>
                      let P = neg E P;
                          Q = doubleMult E P (drop Size sig) (subslice hRAM 0 Size);
                          enc = word_bytes Size (ToBytes E Q)
                      in Inr (enc = subslice sig 0 Size))))"

text \<open>
  The method \<open>(k *KeyPair) Sign(rand io.Reader, message []byte, opts crypto.SignerOpts)\<close>.
  \<open>crypto.Hash\<close> is an unsigned integer and \<open>opts\<close> is used through \<open>HashFunc()\<close>
  only; the result pair is the slice (\<open>None\<close> for \<open>nil\<close>) and the error (\<open>None\<close> for
  \<open>nil\<close>, else its message).
\<close>

record SignerOpts =
  HashFunc :: nat

definition KeyPair_Sign ::
  "'p collaborators \<Rightarrow> KeyPair \<Rightarrow> 'r \<Rightarrow> byte list \<Rightarrow> SignerOpts \<Rightarrow>
     panic + (byte list option \<times> string option)" where
  "KeyPair_Sign E k rand message opts =
    (if HashFunc opts \<noteq> 0 then Inr (None, Some ''ed25519: cannot sign hashed message'')
     else case Sign E k message of
            Inl e \<Rightarrow> Inl e
          | Inr signature \<Rightarrow> Inr (Some signature, None))"

text \<open>
  An instance of the collaborators on the one-point type, for evaluating the functions
  above on concrete inputs: every digest and every encoding is zero and no byte string
  decodes to a point.
\<close>

definition stub :: "unit collaborators" where
  "stub = \<lparr>Sum512 = (\<lambda>_. 0), fixedMult = (\<lambda>_. ()), doubleMult = (\<lambda>_ _ _. ()),
           neg = (\<lambda>_. ()), ToBytes = (\<lambda>_. 0), FromBytes = (\<lambda>_. None)\<rparr>"

subsection \<open>Memory: slices, arrays and the pointer \<open>*KeyPair\<close>\<close>

text \<open>
  Where a function hands out or keeps a slice, what it shares matters. Memory is the list
  of the byte arrays allocated so far, an address is an index into it, and a slice value
  is a window \<open>off, len\<close> into the array at \<open>base\<close>. Allocation appends a zeroed array.
\<close>

type_synonym addr = nat
type_synonym memory = "byte list list"

record slice_ref =
  base :: addr
  off :: nat
  len :: nat

text \<open>The elements of a slice.\<close>

definition load :: "memory \<Rightarrow> slice_ref \<Rightarrow> byte list" where
  "load h s = take (len s) (drop (off s) (h ! base s))"

text \<open>\<open>make([]byte, n)\<close>.\<close>

definition make_slice :: "memory \<Rightarrow> nat \<Rightarrow> slice_ref \<times> memory" where
  "make_slice h n = (\<lparr>base = length h, off = 0, len = n\<rparr>, h @ [replicate n 0])"

text \<open>Writing \<open>bs\<close> to the front of \<open>dst\<close>, as much as fits.\<close>

definition write_bytes :: "memory \<Rightarrow> slice_ref \<Rightarrow> byte list \<Rightarrow> memory" where
  "write_bytes h dst bs =
     h[base dst := put_slice (h ! base dst) (off dst) (take (len dst) bs)]"

text \<open>The builtin \<open>copy(dst, src)\<close>.\<close>

definition copy :: "memory \<Rightarrow> slice_ref \<Rightarrow> slice_ref \<Rightarrow> memory" where
  "copy h dst src = write_bytes h dst (load h src)"

text \<open>The assignment \<open>s[i] = v\<close>.\<close>

definition store :: "memory \<Rightarrow> slice_ref \<Rightarrow> nat \<Rightarrow> byte \<Rightarrow> panic + memory" where
  "store h s i v =
     (if len s \<le> i then Inl IndexOutOfRange
      else Inr (h[base s := (h ! base s)[off s + i := v]]))"

text \<open>
  A \<open>*KeyPair\<close> is the pair of addresses of its two array fields; \<open>a[:]\<close> of an array
  of \<open>Size\<close> bytes at address \<open>a\<close> is the slice \<open>whole a\<close>; \<open>deref\<close> reads the struct.
\<close>

record KeyPair_ptr =
  private_arr :: addr
  public_arr :: addr

definition whole :: "addr \<Rightarrow> slice_ref" where
  "whole a = \<lparr>base = a, off = 0, len = Size\<rparr>"

definition deref :: "memory \<Rightarrow> KeyPair_ptr \<Rightarrow> KeyPair" where
  "deref h k = \<lparr>private_key = load h (whole (private_arr k)),
               public_key = load h (whole (public_arr k))\<rparr>"

text \<open>
  What the Go types guarantee of a slice and of a \<open>*KeyPair\<close> that a caller holds: the
  window lies inside an allocated array, and the two fields are allocated arrays of
  \<open>Size\<close> bytes.
\<close>

definition valid_slice :: "memory \<Rightarrow> slice_ref \<Rightarrow> bool" where
  "valid_slice h s \<longleftrightarrow> base s < length h \<and> off s + len s \<le> length (h ! base s)"

definition valid_KeyPair :: "memory \<Rightarrow> KeyPair_ptr \<Rightarrow> bool" where
  "valid_KeyPair h k \<longleftrightarrow>
     private_arr k < length h \<and> public_arr k < length h \<and>
     length (h ! private_arr k) = Size \<and> length (h ! public_arr k) = Size"

text \<open>\<open>new(KeyPair)\<close>.\<close>

definition new_KeyPair :: "memory \<Rightarrow> KeyPair_ptr \<times> memory" where
  "new_KeyPair h =
     (\<lparr>private_arr = length h, public_arr = length h + 1\<rparr>,
      h @ [replicate Size 0, replicate Size 0])"

text \<open>\<open>makeCopy(in *[Size]byte) []byte\<close>, \<open>GetPrivate\<close> and \<open>GetPublic\<close>.\<close>

definition makeCopy :: "memory \<Rightarrow> addr \<Rightarrow> slice_ref \<times> memory" where
  "makeCopy h in_arr = (let (out, h) = make_slice h Size in (out, copy h out (whole in_arr)))"

definition GetPrivate :: "memory \<Rightarrow> KeyPair_ptr \<Rightarrow> slice_ref \<times> memory" where
  "GetPrivate h k = makeCopy h (private_arr k)"

definition GetPublic :: "memory \<Rightarrow> KeyPair_ptr \<Rightarrow> slice_ref \<times> memory" where
  "GetPublic h k = makeCopy h (public_arr k)"

text \<open>The bytes of a returned slice, in the memory returned with it.\<close>

definition contents :: "slice_ref \<times> memory \<Rightarrow> byte list" where
  "contents p = load (snd p) (fst p)"

text \<open>
  \<open>NewKeyFromSeed\<close> on a slice in memory. The array \<open>k\<close> returned by
  \<open>sha512.Sum512\<close> is a local value; the struct and the caller's slice are in memory.
\<close>

definition NewKeyFromSeed_mem ::
  "'p collaborators \<Rightarrow> memory \<Rightarrow> slice_ref \<Rightarrow> panic + (KeyPair_ptr \<times> memory)" where
  "NewKeyFromSeed_mem E h private =
    (if len private \<noteq> Size then Inl BadPrivateKeyLength
     else
       let (pk, h) = new_KeyPair h
       in case clamp (sha512_Sum512 E (load h private)) of
            Inl e \<Rightarrow> Inl e
          | Inr k \<Rightarrow>
             (case reduceModOrder (subslice k 0 Size) False of
                Inl e \<Rightarrow> Inl e
              | Inr k' \<Rightarrow>
                  let k = put_slice k 0 k';
                      P = fixedMult E (subslice k 0 Size);
                      h = write_bytes h (whole (public_arr pk)) (word_bytes Size (ToBytes E P));
                      h = copy h (whole (private_arr pk)) (private\<lparr>len := Size\<rparr>)
                  in Inr (pk, h)))"

text \<open>
  \<open>Sign\<close> on a \<open>*KeyPair\<close> in memory: it reads the two fields and returns a slice of a
  new array, \<open>make([]byte, 2*Size)\<close>. The message is only read and stays a value.
\<close>

definition Sign_mem ::
  "'p collaborators \<Rightarrow> memory \<Rightarrow> KeyPair_ptr \<Rightarrow> byte list \<Rightarrow>
     panic + (slice_ref \<times> memory)" where
  "Sign_mem E h k message =
    (case Sign E (deref h k) message of
       Inl e \<Rightarrow> Inl e
     | Inr bs \<Rightarrow>
         let (signature, h) = make_slice h (2 * Size)
         in Inr (signature, write_bytes h signature bs))"

section \<open>Properties\<close>

subsection \<open>Little-endian integers\<close>

lemma le_nat_append: "le_nat (xs @ ys) = le_nat xs + 256 ^ length xs * le_nat ys"
  by (induction xs) (simp_all add: algebra_simps)

lemma le_nat_less: "le_nat xs < 256 ^ length xs"
proof (induction xs)
  case Nil
  then show ?case by simp
next
  case (Cons b bs)
  have "unat b < 256" using unsigned_less [of b] by simp
  with Cons show ?case by simp
qed

lemma length_le_bytes [simp]: "length (le_bytes n v) = n"
  by (induction n arbitrary: v) simp_all

lemma unat_byte_of_nat: "unat (word_of_nat v :: byte) = v mod 256"
  by (simp add: unat_of_nat)

lemma le_nat_le_bytes: "le_nat (le_bytes n v) = v mod 256 ^ n"
proof (induction n arbitrary: v)
  case 0
  then show ?case by simp
next
  case (Suc n)
  have "v mod 256 + 256 * (v div 256 mod 256 ^ n) = v mod (256 * 256 ^ n)"
    by (simp add: mod_mult2_eq)
  with Suc show ?case by (simp add: unat_byte_of_nat)
qed

subsection \<open>Lengths, and the absence of panics on inputs of the right size\<close>

lemma length_word_bytes [simp]: "length (word_bytes n w) = n"
  by (simp add: word_bytes_def)

lemma length_sha512_Sum512 [simp]: "length (sha512_Sum512 E data) = 64"
  by (simp add: sha512_Sum512_def)

lemma length_PutUint64 [simp]: "length (PutUint64 v) = 8"
  by (simp add: PutUint64_def)

lemma length_put_slice [simp]:
  "lo + length bs \<le> length k \<Longrightarrow> length (put_slice k lo bs) = length k"
  by (simp add: put_slice_def)

lemma length_subslice [simp]: "hi \<le> length b \<Longrightarrow> length (subslice b lo hi) = hi - lo"
  by (simp add: subslice_def)

lemma length_red512 [simp]: "length (red512 x full) = length x"
  by (simp add: red512_def split: prod.splits)

lemma reduceModOrder_load_Inr:
  "numWords \<le> length X \<Longrightarrow>
     \<exists>X'. reduceModOrder_load k numWords i X = Inr X' \<and> length X' = length X"
proof (induction k numWords i X rule: reduceModOrder_load.induct)
  case (1 k numWords i X)
  show ?case
  proof (cases "i < numWords")
    case True
    with "1.prems" have "\<not> length X \<le> i" by simp
    with True "1.IH" "1.prems" show ?thesis
      by (subst reduceModOrder_load.simps) simp
  next
    case False
    then show ?thesis
      by (subst reduceModOrder_load.simps) simp
  qed
qed

lemma length_reduceModOrder_store:
  "numWords * 8 \<le> length k \<Longrightarrow> length (reduceModOrder_store X numWords i k) = length k"
proof (induction X numWords i k rule: reduceModOrder_store.induct)
  case (1 X numWords i k)
  show ?case
  proof (cases "i < numWords")
    case True
    then have "i * 8 + 8 \<le> numWords * 8" by simp
    with "1.prems" have "i * 8 + length (PutUint64 (X ! i)) \<le> length k" by simp
    with True "1.IH" "1.prems" show ?thesis
      by (subst reduceModOrder_store.simps) simp
  next
    case False
    then show ?thesis
      by (subst reduceModOrder_store.simps) simp
  qed
qed

text \<open>\<open>reduceModOrder\<close> returns on every slice of at most eight words.\<close>

lemma reduceModOrder_Inr:
  assumes "length k < 72"
  shows "\<exists>k'. reduceModOrder k full = Inr k' \<and> length k' = length k"
proof -
  from assms have "length k div 8 \<le> length (replicate 8 (0 :: uint64))" by simp
  from reduceModOrder_load_Inr [OF this]
  obtain X where X: "reduceModOrder_load k (length k div 8) 0 (replicate 8 0) = Inr X"
    by blast
  have "length k div 8 * 8 \<le> length k" by simp
  then have "length (reduceModOrder_store (red512 X full) (length k div 8) 0 k) = length k"
    by (rule length_reduceModOrder_store)
  with X show ?thesis by (simp add: reduceModOrder_def)
qed

lemma calculateS_Inr:
  assumes "length s = 32" "length r = 32" "length k = 32" "length a = 32"
  shows "\<exists>s'. calculateS s r k a = Inr s' \<and> length s' = 32"
  using assms by (simp add: calculateS_def Let_def)

subsection \<open>The clamped scalar\<close>

lemma clamp_byte_lower: "64 \<le> unat (((x :: byte) AND 127) OR 64)"
proof -
  have "(64 :: byte) \<le> 64 OR (x AND 127)" by (rule le_word_or2)
  then have "(64 :: byte) \<le> (x AND 127) OR 64" by (simp only: or.commute)
  then have "unat (64 :: byte) \<le> unat ((x AND 127) OR 64)" by (simp only: word_le_nat_alt)
  moreover have "unat (64 :: byte) = 64" by simp
  ultimately show ?thesis by linarith
qed

lemma clamp_byte_upper: "unat (((x :: byte) AND 127) OR 64) < 128"
proof -
  have "(x AND 127) OR 64 = (x OR 64) AND 127"
    by (simp add: word_ao_dist)
  moreover have "unat ((x OR 64) AND 127) \<le> unat (127 :: byte)"
    by (rule word_and_le1 [THEN word_le_nat_alt [THEN iffD1]])
  ultimately show ?thesis by simp
qed

text \<open>
  After \<open>clamp\<close> the first 32 bytes denote a multiple-of-8 number with bit 254 set and
  bit 255 clear; only the bounds are needed below.
\<close>

lemma clamp_scalar:
  assumes "Size \<le> length k"
  shows "\<exists>h. clamp k = Inr h \<and> length h = length k \<and> drop Size h = drop Size k \<and>
           2 ^ 254 \<le> le_nat (subslice h 0 Size) \<and> le_nat (subslice h 0 Size) < 2 ^ 255"
proof -
  define b where "b = (k ! 31 AND 127) OR 64"
  define h where "h = k[0 := k ! 0 AND 248, 31 := b]"
  from assms have len: "31 < length h" by (simp add: h_def Size_def)
  from assms have c: "clamp k = Inr h"
    by (auto simp: clamp_def Size_def Let_def h_def b_def)
  have "subslice h 0 Size = take (Suc 31) h" by (simp add: subslice_def Size_def)
  also have "\<dots> = take 31 h @ [h ! 31]" using len by (rule take_Suc_conv_app_nth)
  also have "h ! 31 = b" using len by (simp add: h_def)
  finally have s: "le_nat (subslice h 0 Size) = le_nat (take 31 h) + 256 ^ 31 * unat b"
    using len by (simp add: le_nat_append)
  have lo: "le_nat (take 31 h) < 256 ^ 31"
    using le_nat_less [of "take 31 h"] len by simp
  have "64 \<le> unat b" "unat b \<le> 127"
    using clamp_byte_lower [of "k ! 31"] clamp_byte_upper [of "k ! 31"]
    by (simp_all add: b_def)
  then have "(256 :: nat) ^ 31 * 64 \<le> 256 ^ 31 * unat b"
    "(256 :: nat) ^ 31 * unat b \<le> 256 ^ 31 * 127"
    by simp_all
  with s lo have "2 ^ 254 \<le> le_nat (subslice h 0 Size)" "le_nat (subslice h 0 Size) < 2 ^ 255"
    by simp_all
  moreover have "length h = length k" by (simp add: h_def)
  moreover have "drop Size h = drop Size k" by (simp add: h_def Size_def)
  ultimately show ?thesis using c by blast
qed

text \<open>
  \<open>Sign\<close> never panics: the digests have 64 bytes and every slice it takes has the
  length its callee reads.
\<close>

lemma Sign_scalars_Inr:
  "\<exists>h signature r hRAM.
     clamp (sha512_Sum512 E (private_key k)) = Inr h \<and>
     Sign_scalars E k message = Inr (signature, r, hRAM, subslice h 0 Size) \<and>
     length signature = 64 \<and> length r = 32 \<and> length hRAM = 32 \<and>
     length (subslice h 0 Size) = 32 \<and>
     2 ^ 254 \<le> le_nat (subslice h 0 Size) \<and> le_nat (subslice h 0 Size) < 2 ^ 255"
proof -
  obtain h where h: "clamp (sha512_Sum512 E (private_key k)) = Inr h"
    and lh: "length h = 64"
    and b: "2 ^ 254 \<le> le_nat (subslice h 0 Size)" "le_nat (subslice h 0 Size) < 2 ^ 255"
    using clamp_scalar [of "sha512_Sum512 E (private_key k)"] by (auto simp: Size_def)
  obtain r where r: "reduceModOrder (sha512_Sum512 E (drop Size h @ message)) True = Inr r"
    and lr: "length r = 64"
    using reduceModOrder_Inr [of "sha512_Sum512 E (drop Size h @ message)" True] by auto
  define sg where "sg = put_slice (replicate (2 * Size) 0) 0
    (word_bytes Size (ToBytes E (fixedMult E (subslice r 0 Size))))"
  obtain hRAM where hRAM: "reduceModOrder
      (sha512_Sum512 E (subslice sg 0 Size @ public_key k @ message)) True = Inr hRAM"
    and lm: "length hRAM = 64"
    using reduceModOrder_Inr
      [of "sha512_Sum512 E (subslice sg 0 Size @ public_key k @ message)" True]
    by auto
  have "Sign_scalars E k message =
          Inr (sg, subslice r 0 Size, subslice hRAM 0 Size, subslice h 0 Size)"
    unfolding Sign_scalars_def h sum.case r Let_def sg_def [symmetric] hRAM by (rule refl)
  moreover have "length sg = 64" by (simp add: sg_def Size_def)
  moreover have "length (subslice r 0 Size) = 32" using lr by (simp add: Size_def)
  moreover have "length (subslice hRAM 0 Size) = 32" using lm by (simp add: Size_def)
  moreover have "length (subslice h 0 Size) = 32" using lh by (simp add: Size_def)
  ultimately show ?thesis using h b by blast
qed

lemma Sign_Inr: "\<exists>sg. Sign E k message = Inr sg \<and> length sg = 64"
proof -
  obtain h signature r hRAM where
    s: "Sign_scalars E k message = Inr (signature, r, hRAM, subslice h 0 Size)"
    and l: "length signature = 64" "length r = 32" "length hRAM = 32"
      "length (subslice h 0 Size) = 32"
    using Sign_scalars_Inr [of E k message] by blast
  from l have "length (drop Size signature) = 32" by (simp add: Size_def)
  from calculateS_Inr [OF this l(2) l(3) l(4)]
  obtain s' where s': "calculateS (drop Size signature) r hRAM (subslice h 0 Size) = Inr s'"
    and ls: "length s' = 32"
    by blast
  have "length (put_slice signature Size s') = 64"
    using l ls by (simp add: Size_def)
  with s s' show ?thesis by (simp add: Sign_def)
qed

subsection \<open>Reduction of a number whose upper half is zero\<close>

lemma unat64_less: "unat (x :: uint64) < 2 ^ 64"
  using unsigned_less [of x] by simp

lemma Mul64_zero: "Mul64 0 y = (0, 0)"
  by (simp add: Mul64_def)

lemma Add64_zero: "Add64 x 0 0 = (x, 0)"
  using unat64_less [of x] by (simp add: Add64_def)

lemma Sub64_zero: "Sub64 x 0 0 = (x, 0)"
  by (simp add: Sub64_def)

lemma calculateS_iter_zero: "calculateS_iter [0, 0, 0, 0] a i S = S"
  by (simp add: calculateS_iter_def Mul64_zero Add64_zero)

text \<open>With \<open>q0..q3\<close> all zero a pass of the loop changes nothing.\<close>

lemma red512_iter_zero: "red512_iter i (r, (0, 0, 0, 0)) = (r, (0, 0, 0, 0))"
  by (cases r) (simp add: red512_iter_def Mul64_zero Add64_zero Sub64_zero)

lemma red512_full_zero: "red512_full (r0, r1, r2, r3) (0, 0, 0, 0) = (r0, r1, r2, r3, 0)"
  by (simp add: red512_full_def red512_iter_zero Add64_zero)

text \<open>So on such an input the full mode computes what the short mode computes.\<close>

lemma red512_full_eq_short:
  "red512 [x0, x1, x2, x3, 0, 0, 0, 0] True = red512 [x0, x1, x2, x3, 0, 0, 0, 0] False"
  by (simp add: red512_def red512_full_zero)

lemma red512_short_2p252:
  "red512 [0, 0, 0, 0x1000000000000000, 0, 0, 0, 0] False =
     [0xa7ed9ce5a30a2c13, 0xeb2106215d086329, 0xffffffffffffffff, 0xffffffffffffffff,
      0, 0, 0, 0]"
  by (simp add: red512_def red512_short_def Mul64_def Add64_def Sub64_def ell0_def ell1_def
      Let_def)







text \<open>
  C2. \<open>red512\<close> is to leave in the low four limbs the canonical residue of its input
  modulo the order, in full mode for a 512-bit input and in short mode for a 256-bit
  one. At the input \<open>2^252\<close> (limb 3 is \<open>2^60\<close>, all others zero) it does not: in both
  modes the low limbs hold \<open>2^256 - 27742317777372353535851937790883648493\<close>, which is
  not below the order and not congruent to \<open>2^252\<close>. The last subtraction borrows and
  nothing adds the order back.
\<close>

theorem red512_2p252_not_reduced:
  "limbs_nat [0, 0, 0, 0x1000000000000000, 0, 0, 0, 0] = 2 ^ 252 \<and>
   red512 [0, 0, 0, 0x1000000000000000, 0, 0, 0, 0] True =
     [0xa7ed9ce5a30a2c13, 0xeb2106215d086329, 0xffffffffffffffff, 0xffffffffffffffff,
      0, 0, 0, 0] \<and>
   red512 [0, 0, 0, 0x1000000000000000, 0, 0, 0, 0] False =
     [0xa7ed9ce5a30a2c13, 0xeb2106215d086329, 0xffffffffffffffff, 0xffffffffffffffff,
      0, 0, 0, 0] \<and>
   limbs_nat [0xa7ed9ce5a30a2c13, 0xeb2106215d086329, 0xffffffffffffffff, 0xffffffffffffffff]
     = 2 ^ 256 - 27742317777372353535851937790883648493 \<and>
   \<not> (2 ^ 256 - 27742317777372353535851937790883648493 < ell) \<and>
   (2 ^ 256 - 27742317777372353535851937790883648493) mod ell \<noteq> 2 ^ 252 mod ell"
  by (simp add: red512_full_eq_short red512_short_2p252 ell_def)

subsection \<open>Signatures of the wrong length\<close>

text \<open>
  C4. \<open>Verify\<close> is to return \<open>false\<close>, without a panic, on every signature whose length
  is not 64. On the empty signature the slice expression \<open>sig[Size:]\<close> panics, and on a
  signature of 63 bytes \<open>isLessThan\<close> reads \<open>x[31]\<close> of a slice of 31 bytes and panics.
\<close>

theorem Verify_short_signature_panics:
  "Verify E (replicate 32 0) [] [] = Inl SliceBoundsOutOfRange \<and>
   Verify E (replicate 32 0) [] (replicate 63 0) = Inl IndexOutOfRange"
  by (simp add: Verify_def Size_def isLessThan_def isLessThan_loop.simps)

subsection \<open>The sum \<open>r + k a\<close>\<close>

text \<open>
  C5. \<open>calculateS\<close> is to produce the canonical scalar \<open>r + k a\<close> modulo the order for
  all 256-bit \<open>r\<close>, \<open>k\<close>, \<open>a\<close>. At \<open>r = 2^252\<close>, \<open>k = 0\<close>, \<open>a = 0\<close> (three canonical
  scalars) the sum is \<open>2^252\<close>, which is below the order, and \<open>calculateS\<close> writes
  \<open>2^256 - 27742317777372353535851937790883648493\<close>: the accumulator goes through
  \<open>red512\<close>, whose last subtraction borrows.
\<close>

theorem calculateS_2p252_not_reduced:
  "calculateS
     [0, 0, 0, 0, 0, 0, 0, 0, 0, 0, 0, 0, 0, 0, 0, 0, 0, 0, 0, 0, 0, 0, 0, 0, 0, 0, 0, 0, 0,
      0, 0, 0]
     [0x0, 0x0, 0x0, 0x0, 0x0, 0x0, 0x0, 0x0, 0x0, 0x0, 0x0, 0x0, 0x0, 0x0, 0x0, 0x0, 0x0,
      0x0, 0x0, 0x0, 0x0, 0x0, 0x0, 0x0, 0x0, 0x0, 0x0, 0x0, 0x0, 0x0, 0x0, 0x10]
     [0, 0, 0, 0, 0, 0, 0, 0, 0, 0, 0, 0, 0, 0, 0, 0, 0, 0, 0, 0, 0, 0, 0, 0, 0, 0, 0, 0, 0,
      0, 0, 0]
     [0, 0, 0, 0, 0, 0, 0, 0, 0, 0, 0, 0, 0, 0, 0, 0, 0, 0, 0, 0, 0, 0, 0, 0, 0, 0, 0, 0, 0,
      0, 0, 0] =
   Inr [0x13, 0x2c, 0xa, 0xa3, 0xe5, 0x9c, 0xed, 0xa7, 0x29, 0x63, 0x8, 0x5d, 0x21, 0x6, 0x21,
      0xeb, 0xff, 0xff, 0xff, 0xff, 0xff, 0xff, 0xff, 0xff, 0xff, 0xff, 0xff, 0xff, 0xff,
      0xff, 0xff, 0xff] \<and>
   le_nat [0x0, 0x0, 0x0, 0x0, 0x0, 0x0, 0x0, 0x0, 0x0, 0x0, 0x0, 0x0, 0x0, 0x0, 0x0, 0x0, 0x0,
      0x0, 0x0, 0x0, 0x0, 0x0, 0x0, 0x0, 0x0, 0x0, 0x0, 0x0, 0x0, 0x0, 0x0, 0x10] = 2 ^ 252 \<and>
   le_nat [0, 0, 0, 0, 0, 0, 0, 0, 0, 0, 0, 0, 0, 0, 0, 0, 0, 0, 0, 0, 0, 0, 0, 0, 0, 0, 0, 0, 0,
      0, 0, 0] = 0 \<and>
   2 ^ 252 < ell \<and>
   le_nat [0x13, 0x2c, 0xa, 0xa3, 0xe5, 0x9c, 0xed, 0xa7, 0x29, 0x63, 0x8, 0x5d, 0x21, 0x6, 0x21,
      0xeb, 0xff, 0xff, 0xff, 0xff, 0xff, 0xff, 0xff, 0xff, 0xff, 0xff, 0xff, 0xff, 0xff,
      0xff, 0xff, 0xff] =
     2 ^ 256 - 27742317777372353535851937790883648493 \<and>
   le_nat [0x13, 0x2c, 0xa, 0xa3, 0xe5, 0x9c, 0xed, 0xa7, 0x29, 0x63, 0x8, 0x5d, 0x21, 0x6, 0x21,
      0xeb, 0xff, 0xff, 0xff, 0xff, 0xff, 0xff, 0xff, 0xff, 0xff, 0xff, 0xff, 0xff, 0xff,
      0xff, 0xff, 0xff] \<noteq>
     (2 ^ 252 + 0 * 0) mod ell \<and>
   \<not> le_nat [0x13, 0x2c, 0xa, 0xa3, 0xe5, 0x9c, 0xed, 0xa7, 0x29, 0x63, 0x8, 0x5d, 0x21, 0x6, 0x21,
      0xeb, 0xff, 0xff, 0xff, 0xff, 0xff, 0xff, 0xff, 0xff, 0xff, 0xff, 0xff, 0xff, 0xff,
      0xff, 0xff, 0xff] < ell"
  by (simp add: calculateS_def subslice_def Uint64_def calculateS_iter_zero
      red512_full_eq_short red512_short_2p252 put_slice_def PutUint64_def ell_def)

subsection \<open>The secret scalar in \<open>Sign\<close>\<close>



subsection \<open>The \<open>crypto.Signer\<close> method\<close>

text \<open>
  C8. When \<open>opts.HashFunc()\<close> is not zero the method \<open>Sign\<close> returns a nil signature and
  an error; when it is zero it returns the signature of \<open>Sign(k, message)\<close> and a nil
  error.
\<close>

theorem KeyPair_Sign_HashFunc:
  "(HashFunc opts \<noteq> 0 \<longrightarrow>
      (\<exists>e. KeyPair_Sign E k rand message opts = Inr (None, Some e))) \<and>
   (HashFunc opts = 0 \<longrightarrow>
      (\<exists>sg. KeyPair_Sign E k rand message opts = Inr (Some sg, None) \<and>
            Sign E k message = Inr sg \<and> length sg = 2 * Size))"
proof -
  obtain sg where "Sign E k message = Inr sg" "length sg = 64"
    using Sign_Inr [of E k message] by blast
  then show ?thesis by (simp add: KeyPair_Sign_def Size_def)
qed

theorem KeyPair_Sign_HashFunc_witness:
  "HashFunc \<lparr>HashFunc = 5\<rparr> \<noteq> 0 \<and>
   (\<exists>e. KeyPair_Sign stub \<lparr>private_key = [], public_key = []\<rparr> () [] \<lparr>HashFunc = 5\<rparr> =
          Inr (None, Some e)) \<and>
   HashFunc \<lparr>HashFunc = 0\<rparr> = 0 \<and>
   (\<exists>sg. KeyPair_Sign stub \<lparr>private_key = [], public_key = []\<rparr> () [] \<lparr>HashFunc = 0\<rparr> =
           Inr (Some sg, None) \<and>
         Sign stub \<lparr>private_key = [], public_key = []\<rparr> [] = Inr sg \<and>
         length sg = 2 * Size)"
  using
    KeyPair_Sign_HashFunc [of "\<lparr>HashFunc = 5\<rparr>" stub
      "\<lparr>private_key = [], public_key = []\<rparr>" "()" "[]"]
    KeyPair_Sign_HashFunc [of "\<lparr>HashFunc = 0\<rparr>" stub
      "\<lparr>private_key = [], public_key = []\<rparr>" "()" "[]"]
  by simp

subsection \<open>The comparison with the order\<close>

text \<open>
  Below the index where two byte strings first differ, counted from the top, the tails
  cannot outweigh that byte.
\<close>

lemma top_digit_decides:
  fixes a b B u v :: nat
  assumes "a < B" "b < B" "u \<noteq> v"
  shows "u < v \<longleftrightarrow> a + B * u < b + B * v"
proof (cases "u < v")
  case True
  then have "B * Suc u \<le> B * v" by (intro mult_le_mono2) simp
  with assms True show ?thesis by simp
next
  case False
  with assms have "v < u" by simp
  then have "B * Suc v \<le> B * u" by (intro mult_le_mono2) simp
  with assms False show ?thesis by simp
qed

lemma le_nat_take_Suc:
  "i < length x \<Longrightarrow> le_nat (take (Suc i) x) = le_nat (take i x) + 256 ^ i * unat (x ! i)"
  by (simp add: take_Suc_conv_app_nth le_nat_append)

text \<open>
  The loop of \<open>isLessThan\<close> stops at the most significant byte where \<open>x\<close> and \<open>y\<close>
  differ, or at 0; comparing that byte compares the numbers.
\<close>

lemma isLessThan_loop_spec:
  "i < length x \<Longrightarrow> i < length y \<Longrightarrow>
     \<exists>j\<le>i. isLessThan_loop x y i = Inr j \<and>
       (x ! j < y ! j \<longleftrightarrow> le_nat (take (Suc i) x) < le_nat (take (Suc i) y))"
proof (induction i)
  case 0
  have "isLessThan_loop x y 0 = Inr 0"
    by (subst isLessThan_loop.simps) simp
  with 0 show ?case
    by (simp add: le_nat_take_Suc word_less_nat_alt)
next
  case (Suc n)
  let ?B = "(256 :: nat) ^ Suc n"
  have X: "le_nat (take (Suc n) x) < ?B" "le_nat (take (Suc n) y) < ?B"
    using le_nat_less [of "take (Suc n) x"] le_nat_less [of "take (Suc n) y"] Suc.prems
    by simp_all
  have eqs:
    "le_nat (take (Suc (Suc n)) x) = le_nat (take (Suc n) x) + ?B * unat (x ! Suc n)"
    "le_nat (take (Suc (Suc n)) y) = le_nat (take (Suc n) y) + ?B * unat (y ! Suc n)"
    using Suc.prems by (simp_all only: le_nat_take_Suc)
  show ?case
  proof (cases "x ! Suc n = y ! Suc n")
    case True
    with Suc.prems have "isLessThan_loop x y (Suc n) = isLessThan_loop x y n"
      by (subst isLessThan_loop.simps) simp
    moreover from Suc.IH Suc.prems obtain j where "j \<le> n" "isLessThan_loop x y n = Inr j"
      "x ! j < y ! j \<longleftrightarrow> le_nat (take (Suc n) x) < le_nat (take (Suc n) y)"
      by auto
    ultimately show ?thesis using True eqs by auto
  next
    case False
    with Suc.prems have l: "isLessThan_loop x y (Suc n) = Inr (Suc n)"
      by (subst isLessThan_loop.simps) simp
    from False have "unat (x ! Suc n) \<noteq> unat (y ! Suc n)" by (simp add: word_unat_eq_iff)
    from top_digit_decides [OF X this]
    have "x ! Suc n < y ! Suc n \<longleftrightarrow>
            le_nat (take (Suc (Suc n)) x) < le_nat (take (Suc (Suc n)) y)"
      by (simp only: eqs word_less_nat_alt)
    with l show ?thesis by blast
  qed
qed

lemma isLessThan_spec:
  assumes "Size \<le> length x" "Size \<le> length y"
  shows "isLessThan x y = Inr (le_nat (take Size x) < le_nat (take Size y))"
proof -
  from assms have "Size - 1 < length x" "Size - 1 < length y" by (simp_all add: Size_def)
  from isLessThan_loop_spec [OF this]
  obtain j where "j \<le> Size - 1" "isLessThan_loop x y (Size - 1) = Inr j"
    "x ! j < y ! j \<longleftrightarrow> le_nat (take (Suc (Size - 1)) x) < le_nat (take (Suc (Size - 1)) y)"
    by blast
  moreover have "Suc (Size - 1) = Size" by (simp add: Size_def)
  ultimately show ?thesis using assms by (simp add: isLessThan_def)
qed

lemma ell_less: "ell < 256 ^ Size"
  by (simp add: ell_def Size_def)

lemma le_nat_curve_order: "le_nat (take Size (subslice curve_order 0 Size)) = ell"
  using ell_less by (simp add: subslice_def curve_order_def le_nat_le_bytes)

lemma Verify_noncanonical:
  assumes "length public = Size" "length sig = 2 * Size" "ell \<le> le_nat (drop Size sig)"
  shows "Verify E public message sig = Inr False"
proof -
  have "isLessThan (drop Size sig) (subslice curve_order 0 Size) =
          Inr (le_nat (take Size (drop Size sig)) < le_nat (take Size (subslice curve_order 0 Size)))"
    using assms by (intro isLessThan_spec) (simp_all add: subslice_def curve_order_def)
  moreover have "take Size (drop Size sig) = drop Size sig" using assms by simp
  ultimately have "isLessThan (drop Size sig) (subslice curve_order 0 Size) = Inr False"
    using assms by (simp add: le_nat_curve_order)
  with assms show ?thesis by (simp add: Verify_def)
qed

lemma le_nat_replicate_zero [simp]: "le_nat (replicate n 0) = 0"
  by (induction n) simp_all

text \<open>
  C3. For a public key of 32 bytes and a signature of 64 bytes whose second half denotes
  a number \<open>S \<ge> ell\<close>, \<open>Verify\<close> returns \<open>false\<close>, whatever the message and the
  collaborators. In particular it returns \<open>false\<close> on \<open>R\<close> followed by the 32-byte
  encoding of \<open>S + ell\<close>, when that number is below \<open>2^256\<close>.
\<close>

theorem Verify_rejects_noncanonical_S:
  "(length public = Size \<and> length sig = 2 * Size \<and> ell \<le> le_nat (drop Size sig) \<longrightarrow>
      Verify E public message sig = Inr False) \<and>
   (length public = Size \<and> length R = Size \<and> S + ell < 2 ^ 256 \<longrightarrow>
      Verify E public message (R @ le_bytes Size (S + ell)) = Inr False)"
proof (intro conjI impI)
  assume "length public = Size \<and> length sig = 2 * Size \<and> ell \<le> le_nat (drop Size sig)"
  then show "Verify E public message sig = Inr False"
    by (intro Verify_noncanonical) simp_all
next
  assume a: "length public = Size \<and> length R = Size \<and> S + ell < 2 ^ 256"
  then have "le_nat (le_bytes Size (S + ell)) = S + ell"
    by (simp add: le_nat_le_bytes Size_def)
  with a show "Verify E public message (R @ le_bytes Size (S + ell)) = Inr False"
    by (intro Verify_noncanonical) simp_all
qed

theorem Verify_rejects_noncanonical_S_witness:
  "length (replicate 32 (0 :: byte)) = Size \<and>
   length (replicate 63 0 @ [32 :: byte]) = 2 * Size \<and>
   ell \<le> le_nat (drop Size (replicate 63 0 @ [32])) \<and>
   Verify stub (replicate 32 0) [] (replicate 63 0 @ [32]) = Inr False \<and>
   0 + ell < 2 ^ 256 \<and>
   Verify stub (replicate 32 0) [] (replicate 32 0 @ le_bytes Size (0 + ell)) = Inr False"
proof -
  have h: "length (replicate 32 (0 :: byte)) = Size"
    "length (replicate 63 0 @ [32 :: byte]) = 2 * Size"
    "ell \<le> le_nat (drop Size (replicate 63 0 @ [32]))"
    "0 + ell < 2 ^ 256"
    by (simp_all add: Size_def ell_def le_nat_append)
  with Verify_rejects_noncanonical_S
    [where public = "replicate 32 0" and sig = "replicate 63 0 @ [32]" and E = stub
       and message = "[]" and R = "replicate 32 0" and S = 0]
  show ?thesis by blast
qed

subsection \<open>Memory: what is shared and what is copied\<close>

lemma write_bytes_other:
  "a \<noteq> base dst \<Longrightarrow> write_bytes h dst bs ! a = h ! a"
  by (simp add: write_bytes_def)

lemma length_write_bytes [simp]: "length (write_bytes h dst bs) = length h"
  by (simp add: write_bytes_def)

lemma load_update_other:
  "base s \<noteq> a \<Longrightarrow> load (h[a := bs]) s = load h s"
  by (simp add: load_def)

lemma load_append:
  "base s < length h \<Longrightarrow> load (h @ h') s = load h s"
  by (simp add: load_def nth_append)

text \<open>A copy made by \<open>makeCopy\<close>: a new array, the old ones untouched, the same bytes.\<close>

lemma makeCopy_spec:
  assumes "a < length h" "length (h ! a) = Size"
  shows "makeCopy h a =
           (\<lparr>base = length h, off = 0, len = Size\<rparr>, h @ [h ! a])"
proof -
  have "load (h @ [replicate Size 0]) (whole a) = h ! a"
    using assms by (simp add: load_def whole_def nth_append)
  then show ?thesis
    using assms
    by (simp add: makeCopy_def make_slice_def copy_def write_bytes_def put_slice_def)
qed

lemma deref_update_other:
  "private_arr k \<noteq> a \<Longrightarrow> public_arr k \<noteq> a \<Longrightarrow> deref (h[a := bs]) k = deref h k"
  by (simp add: deref_def load_update_other whole_def)

lemma deref_append:
  "private_arr k < length h \<Longrightarrow> public_arr k < length h \<Longrightarrow> deref (h @ h') k = deref h k"
  by (simp add: deref_def load_append whole_def)

lemma valid_KeyPair_update_other:
  "valid_KeyPair h k \<Longrightarrow> private_arr k \<noteq> a \<Longrightarrow> public_arr k \<noteq> a \<Longrightarrow>
     valid_KeyPair (h[a := bs]) k"
  by (simp add: valid_KeyPair_def)

lemma valid_KeyPair_append:
  "valid_KeyPair h k \<Longrightarrow> valid_KeyPair (h @ h') k"
  by (simp add: valid_KeyPair_def nth_append)

lemma contents_makeCopy:
  "a < length h \<Longrightarrow> length (h ! a) = Size \<Longrightarrow> contents (makeCopy h a) = h ! a"
  by (simp add: makeCopy_spec contents_def load_def)

lemma contents_GetPrivate:
  "valid_KeyPair h k \<Longrightarrow> contents (GetPrivate h k) = private_key (deref h k)"
  by (simp add: GetPrivate_def contents_makeCopy valid_KeyPair_def deref_def load_def whole_def)

lemma contents_GetPublic:
  "valid_KeyPair h k \<Longrightarrow> contents (GetPublic h k) = public_key (deref h k)"
  by (simp add: GetPublic_def contents_makeCopy valid_KeyPair_def deref_def load_def whole_def)

text \<open>\<open>Sign\<close> in memory: a new array of 64 bytes holding the signature.\<close>

lemma Sign_mem_spec:
  "\<exists>sg. Sign E (deref h k) message = Inr sg \<and> length sg = 64 \<and>
     Sign_mem E h k message =
       Inr (\<lparr>base = length h, off = 0, len = 2 * Size\<rparr>, h @ [sg])"
proof -
  obtain sg where sg: "Sign E (deref h k) message = Inr sg" "length sg = 64"
    using Sign_Inr [of E "deref h k" message] by blast
  then have "Sign_mem E h k message =
       Inr (\<lparr>base = length h, off = 0, len = 2 * Size\<rparr>, h @ [sg])"
    by (simp add: Sign_mem_def make_slice_def write_bytes_def put_slice_def Size_def)
  with sg show ?thesis by blast
qed

lemma contents_Sign_mem:
  "map_sum id contents (Sign_mem E h k message) = Sign E (deref h k) message"
  using Sign_mem_spec [of E h k message]
  by (auto simp: contents_def load_def Size_def)

text \<open>An element assignment through a slice changes the array of that slice only.\<close>

lemma store_update:
  "store h s i v = Inr h' \<Longrightarrow> \<exists>bs. h' = h[base s := bs]"
  by (auto simp: store_def split: if_splits)


lemma length_load: "valid_slice h s \<Longrightarrow> length (load h s) = len s"
  by (auto simp: valid_slice_def load_def)

lemma NewKeyFromSeed_Inr:
  assumes "length private = Size"
  shows "\<exists>pub. NewKeyFromSeed E private = Inr \<lparr>private_key = private, public_key = pub\<rparr> \<and>
           length pub = Size"
proof -
  obtain k where k: "clamp (sha512_Sum512 E private) = Inr k" and lk: "length k = 64"
    using clamp_scalar [of "sha512_Sum512 E private"] by (auto simp: Size_def)
  obtain k' where k': "reduceModOrder (subslice k 0 Size) False = Inr k'"
    using reduceModOrder_Inr [of "subslice k 0 Size" False] lk by (auto simp: Size_def)
  have "subslice private 0 Size = private" using assms by (simp add: subslice_def)
  with assms k k' show ?thesis by (simp add: NewKeyFromSeed_def Let_def)
qed

lemma NewKeyFromSeed_mem_spec:
  assumes "valid_slice h seed" "len seed = Size"
  shows "\<exists>pub. NewKeyFromSeed E (load h seed) =
                 Inr \<lparr>private_key = load h seed, public_key = pub\<rparr> \<and>
               length pub = Size \<and>
               NewKeyFromSeed_mem E h seed =
                 Inr (\<lparr>private_arr = length h, public_arr = length h + 1\<rparr>,
                      h @ [load h seed, pub])"
proof -
  let ?p = "load h seed"
  have lp: "length ?p = Size" using assms by (simp add: length_load)
  have ld: "\<And>h'. load (h @ h') seed = ?p"
    using assms by (simp add: load_append valid_slice_def)
  obtain k where k: "clamp (sha512_Sum512 E ?p) = Inr k" and lk: "length k = 64"
    using clamp_scalar [of "sha512_Sum512 E ?p"] by (auto simp: Size_def)
  obtain k' where k': "reduceModOrder (subslice k 0 Size) False = Inr k'"
    using reduceModOrder_Inr [of "subslice k 0 Size" False] lk by (auto simp: Size_def)
  define pub where
    "pub = word_bytes Size (ToBytes E (fixedMult E (subslice (put_slice k 0 k') 0 Size)))"
  have v: "NewKeyFromSeed E ?p = Inr \<lparr>private_key = ?p, public_key = pub\<rparr>"
    using lp k k' by (simp add: NewKeyFromSeed_def Let_def pub_def subslice_def)
  have lpub: "length pub = Size" by (simp add: pub_def)
  have s: "seed\<lparr>len := Size\<rparr> = seed" using assms by simp
  have w1: "write_bytes (h @ [replicate Size 0, replicate Size 0]) (whole (Suc (length h))) pub =
              h @ [replicate Size 0, pub]"
    using lpub by (simp add: write_bytes_def whole_def put_slice_def nth_append list_update_append)
  have w2: "copy (h @ [replicate Size 0, pub]) (whole (length h)) seed = h @ [?p, pub]"
    using lp by (simp add: copy_def ld write_bytes_def whole_def put_slice_def nth_append
        list_update_append)
  have "NewKeyFromSeed_mem E h seed =
          Inr (\<lparr>private_arr = length h, public_arr = length h + 1\<rparr>, h @ [?p, pub])"
    using assms(2) k k'
    by (simp add: NewKeyFromSeed_mem_def new_KeyPair_def ld Let_def pub_def [symmetric] s w1 w2)
  with v lpub show ?thesis by blast
qed

text \<open>
  C9. \<open>GetPrivate\<close> returns a slice of a new array of 32 bytes that holds the bytes of
  the field \<open>private\<close>, and \<open>GetPublic\<close> one that holds the bytes of the field \<open>public\<close>.
  Whatever is later written to that array (one element assignment through the slice, or
  any other change of the array), the struct keeps its bytes, \<open>GetPrivate\<close> still returns
  the private bytes and \<open>GetPublic\<close> the public ones, and \<open>Sign\<close> and \<open>Verify\<close> with the
  public key return what they returned before.
\<close>

theorem accessor_copies_are_independent:
  assumes v: "valid_KeyPair h k"
    and g: "(s, h1) = GetPrivate h k \<or> (s, h1) = GetPublic h k"
  shows "base s \<noteq> private_arr k \<and> base s \<noteq> public_arr k \<and>
         deref h1 k = deref h k \<and>
         load h1 s \<in> {private_key (deref h k), public_key (deref h k)} \<and>
         ((s, h1) = GetPrivate h k \<longrightarrow> load h1 s = private_key (deref h k)) \<and>
         ((s, h1) = GetPublic h k \<longrightarrow> load h1 s = public_key (deref h k)) \<and>
         length (load h1 s) = Size \<and>
         contents (GetPrivate h k) = private_key (deref h k) \<and>
         contents (GetPublic h k) = public_key (deref h k) \<and>
         (\<forall>i v h2. store h1 s i v = Inr h2 \<longrightarrow>
            deref h2 k = deref h k \<and>
            contents (GetPrivate h2 k) = private_key (deref h k) \<and>
            contents (GetPublic h2 k) = public_key (deref h k)) \<and>
         (\<forall>bs.
            deref (h1[base s := bs]) k = deref h k \<and>
            contents (GetPrivate (h1[base s := bs]) k) = contents (GetPrivate h k) \<and>
            contents (GetPublic (h1[base s := bs]) k) = contents (GetPublic h k) \<and>
            contents (GetPrivate (h1[base s := bs]) k) = private_key (deref h k) \<and>
            contents (GetPublic (h1[base s := bs]) k) = public_key (deref h k) \<and>
            map_sum id contents (Sign_mem E (h1[base s := bs]) k message) =
              map_sum id contents (Sign_mem E h k message) \<and>
            Verify E (contents (GetPublic (h1[base s := bs]) k)) message sg =
              Verify E (contents (GetPublic h k)) message sg)"
proof -
  from v have a: "private_arr k < length h" "public_arr k < length h"
    "length (h ! private_arr k) = Size" "length (h ! public_arr k) = Size"
    by (simp_all add: valid_KeyPair_def)
  have gp: "GetPrivate h k = (\<lparr>base = length h, off = 0, len = Size\<rparr>, h @ [h ! private_arr k])"
    using a by (simp add: GetPrivate_def makeCopy_spec)
  have gq: "GetPublic h k = (\<lparr>base = length h, off = 0, len = Size\<rparr>, h @ [h ! public_arr k])"
    using a by (simp add: GetPublic_def makeCopy_spec)
  have pk: "private_key (deref h k) = h ! private_arr k"
    "public_key (deref h k) = h ! public_arr k"
    using a by (simp_all add: deref_def load_def whole_def)
  from g gp gq obtain x where s: "s = \<lparr>base = length h, off = 0, len = Size\<rparr>"
    and h1: "h1 = h @ [x]" and x: "x = h ! private_arr k \<or> x = h ! public_arr k"
    by auto
  have ls: "load h1 s = x" using a x by (auto simp: s h1 load_def)
  have u: "\<And>bs. h1[base s := bs] = h @ [bs]" by (simp add: s h1)
  have d: "\<And>bs. deref (h @ [bs]) k = deref h k" using a by (simp add: deref_append)
  have vv: "\<And>bs. valid_KeyPair (h @ [bs]) k" using v by (rule valid_KeyPair_append)
  have c: "load h1 s \<in> {private_key (deref h k), public_key (deref h k)}"
    using x by (auto simp: ls pk)
  have c1: "(s, h1) = GetPrivate h k \<longrightarrow> load h1 s = private_key (deref h k)"
    using a by (auto simp: gp pk load_def)
  have c2: "(s, h1) = GetPublic h k \<longrightarrow> load h1 s = public_key (deref h k)"
    using a by (auto simp: gq pk load_def)
  have c3: "length (load h1 s) = Size" using a x by (auto simp: ls)
  have c4: "contents (GetPrivate h k) = private_key (deref h k)"
    "contents (GetPublic h k) = public_key (deref h k)"
    using v by (simp_all add: contents_GetPrivate contents_GetPublic)
  have al: "\<forall>bs.
      deref (h1[base s := bs]) k = deref h k \<and>
      contents (GetPrivate (h1[base s := bs]) k) = contents (GetPrivate h k) \<and>
      contents (GetPublic (h1[base s := bs]) k) = contents (GetPublic h k) \<and>
      contents (GetPrivate (h1[base s := bs]) k) = private_key (deref h k) \<and>
      contents (GetPublic (h1[base s := bs]) k) = public_key (deref h k) \<and>
      map_sum id contents (Sign_mem E (h1[base s := bs]) k message) =
        map_sum id contents (Sign_mem E h k message) \<and>
      Verify E (contents (GetPublic (h1[base s := bs]) k)) message sg =
        Verify E (contents (GetPublic h k)) message sg"
    using v by (simp add: u d vv contents_GetPrivate contents_GetPublic contents_Sign_mem)
  have st: "\<forall>i v h2. store h1 s i v = Inr h2 \<longrightarrow>
      deref h2 k = deref h k \<and>
      contents (GetPrivate h2 k) = private_key (deref h k) \<and>
      contents (GetPublic h2 k) = public_key (deref h k)"
  proof (intro allI impI)
    fix i v h2
    assume "store h1 s i v = Inr h2"
    then obtain bs where "h2 = h1[base s := bs]" using store_update by blast
    with al show "deref h2 k = deref h k \<and>
      contents (GetPrivate h2 k) = private_key (deref h k) \<and>
      contents (GetPublic h2 k) = public_key (deref h k)" by blast
  qed
  have n: "base s \<noteq> private_arr k" "base s \<noteq> public_arr k" using a by (simp_all add: s)
  have e: "deref h1 k = deref h k" by (simp add: h1 d)
  from n e c c1 c2 c3 c4 st al show ?thesis by (intro conjI)
qed

theorem accessor_copies_are_independent_witness:
  "valid_KeyPair [replicate 32 1, replicate 32 2] \<lparr>private_arr = 0, public_arr = 1\<rparr> \<and>
   (\<lparr>base = 2, off = 0, len = Size\<rparr>, [replicate 32 1, replicate 32 2, replicate 32 1]) =
     GetPrivate [replicate 32 1, replicate 32 2] \<lparr>private_arr = 0, public_arr = 1\<rparr> \<and>
   (\<lparr>base = 2, off = 0, len = Size\<rparr>, [replicate 32 1, replicate 32 2, replicate 32 2]) =
     GetPublic [replicate 32 1, replicate 32 2] \<lparr>private_arr = 0, public_arr = 1\<rparr> \<and>
   load [replicate 32 1, replicate 32 2, replicate 32 1] \<lparr>base = 2, off = 0, len = Size\<rparr> =
     private_key (deref [replicate 32 1, replicate 32 2] \<lparr>private_arr = 0, public_arr = 1\<rparr>) \<and>
   load [replicate 32 1, replicate 32 2, replicate 32 2] \<lparr>base = 2, off = 0, len = Size\<rparr> =
     public_key (deref [replicate 32 1, replicate 32 2] \<lparr>private_arr = 0, public_arr = 1\<rparr>) \<and>
   deref [replicate 32 1, replicate 32 2, replicate 32 9] \<lparr>private_arr = 0, public_arr = 1\<rparr> =
     deref [replicate 32 1, replicate 32 2] \<lparr>private_arr = 0, public_arr = 1\<rparr>"
proof -
  let ?h = "[replicate 32 1, replicate 32 2] :: memory"
  let ?k = "\<lparr>private_arr = 0, public_arr = 1\<rparr>"
  let ?s = "\<lparr>base = 2, off = 0, len = Size\<rparr>"
  let ?h1 = "[replicate 32 1, replicate 32 2, replicate 32 1] :: memory"
  let ?h1' = "[replicate 32 1, replicate 32 2, replicate 32 2] :: memory"
  have v: "valid_KeyPair ?h ?k" by (simp add: valid_KeyPair_def Size_def)
  have g: "(?s, ?h1) = GetPrivate ?h ?k"
    by (simp add: GetPrivate_def makeCopy_spec Size_def)
  have g': "(?s, ?h1') = GetPublic ?h ?k"
    by (simp add: GetPublic_def makeCopy_spec Size_def)
  from accessor_copies_are_independent
    [OF v disjI1 [OF g], where E = stub and message = "[]" and sg = "[]"] g
  have p: "load ?h1 ?s = private_key (deref ?h ?k)"
    and "\<forall>bs. deref (?h1[base ?s := bs]) ?k = deref ?h ?k" by blast+
  then have m: "deref (?h1[base ?s := replicate 32 9]) ?k = deref ?h ?k" by blast
  from accessor_copies_are_independent
    [OF v disjI2 [OF g'], where E = stub and message = "[]" and sg = "[]"] g'
  have q: "load ?h1' ?s = public_key (deref ?h ?k)" by blast
  from v g g' p q m show ?thesis by simp
qed

text \<open>
  C10. \<open>NewKeyFromSeed\<close> on a valid slice of 32 bytes returns a \<open>*KeyPair\<close> whose fields
  are two new arrays; everything allocated before, the seed included, is as it was.
  Whatever is later written to the array of the seed, \<open>GetPrivate\<close> returns the bytes the
  seed had at the call and \<open>Sign\<close> returns the same signatures.
\<close>

theorem NewKeyFromSeed_copies_seed:
  assumes "valid_slice h seed" "len seed = Size"
  shows "\<exists>pk h1. NewKeyFromSeed_mem E h seed = Inr (pk, h1) \<and>
           load h1 seed = load h seed \<and> take (length h) h1 = h \<and>
           base seed \<noteq> private_arr pk \<and> base seed \<noteq> public_arr pk \<and>
           contents (GetPrivate h1 pk) = load h seed \<and>
           (\<forall>i v h2. store h1 seed i v = Inr h2 \<longrightarrow>
              contents (GetPrivate h2 pk) = load h seed) \<and>
           (\<forall>bs.
              deref (h1[base seed := bs]) pk = deref h1 pk \<and>
              contents (GetPrivate (h1[base seed := bs]) pk) = load h seed \<and>
              map_sum id contents (Sign_mem E (h1[base seed := bs]) pk message) =
                map_sum id contents (Sign_mem E h1 pk message))"
proof -
  obtain pub where lpub: "length pub = Size"
    and n: "NewKeyFromSeed_mem E h seed =
              Inr (\<lparr>private_arr = length h, public_arr = length h + 1\<rparr>,
                   h @ [load h seed, pub])"
    using NewKeyFromSeed_mem_spec [OF assms, of E] by blast
  let ?pk = "\<lparr>private_arr = length h, public_arr = length h + 1\<rparr>"
  let ?h1 = "h @ [load h seed, pub]"
  from assms have b: "base seed < length h" by (simp add: valid_slice_def)
  have lp: "length (load h seed) = Size" using assms by (simp add: length_load)
  have v: "valid_KeyPair ?h1 ?pk"
    using lp lpub by (simp add: valid_KeyPair_def nth_append)
  have ne: "private_arr ?pk \<noteq> base seed" "public_arr ?pk \<noteq> base seed" using b by simp_all
  have d: "\<And>bs. deref (?h1[base seed := bs]) ?pk = deref ?h1 ?pk"
    using ne by (rule deref_update_other)
  have vv: "\<And>bs. valid_KeyPair (?h1[base seed := bs]) ?pk"
    using v ne by (rule valid_KeyPair_update_other)
  have p: "private_key (deref ?h1 ?pk) = load h seed"
    using lp by (simp add: deref_def whole_def nth_append load_def [of _ "\<lparr>base = length h, off = 0, len = Size\<rparr>"])
  have "load ?h1 seed = load h seed" using b by (simp add: load_append)
  moreover have "take (length h) ?h1 = h" by simp
  moreover have "contents (GetPrivate ?h1 ?pk) = load h seed"
    using v p by (simp add: contents_GetPrivate)
  moreover have al: "\<forall>bs.
      deref (?h1[base seed := bs]) ?pk = deref ?h1 ?pk \<and>
      contents (GetPrivate (?h1[base seed := bs]) ?pk) = load h seed \<and>
      map_sum id contents (Sign_mem E (?h1[base seed := bs]) ?pk message) =
        map_sum id contents (Sign_mem E ?h1 ?pk message)"
    using vv d p by (simp add: contents_GetPrivate contents_Sign_mem)
  moreover have "\<forall>i v h2. store ?h1 seed i v = Inr h2 \<longrightarrow>
      contents (GetPrivate h2 ?pk) = load h seed"
  proof (intro allI impI)
    fix i v h2
    assume "store ?h1 seed i v = Inr h2"
    then obtain bs where "h2 = ?h1[base seed := bs]" using store_update by blast
    with al show "contents (GetPrivate h2 ?pk) = load h seed" by blast
  qed
  ultimately show ?thesis using n ne by (intro exI [of _ ?pk] exI [of _ ?h1]) simp
qed

theorem NewKeyFromSeed_copies_seed_witness:
  "valid_slice [replicate 32 7] \<lparr>base = 0, off = 0, len = 32\<rparr> \<and>
   len \<lparr>base = 0, off = 0, len = 32\<rparr> = Size \<and>
   (\<exists>pk h1. NewKeyFromSeed_mem stub [replicate 32 7] \<lparr>base = 0, off = 0, len = 32\<rparr> =
               Inr (pk, h1) \<and>
            contents (GetPrivate (h1[0 := replicate 32 8]) pk) = replicate 32 7)"
proof -
  let ?h = "[replicate 32 7] :: memory"
  let ?s = "\<lparr>base = 0, off = 0, len = 32\<rparr>"
  have v: "valid_slice ?h ?s" by (simp add: valid_slice_def)
  have l: "len ?s = Size" by (simp add: Size_def)
  have "load ?h ?s = replicate 32 7" by (simp add: load_def)
  with NewKeyFromSeed_copies_seed [OF v l, where E = stub and message = "[]"]
  obtain pk h1 where "NewKeyFromSeed_mem stub ?h ?s = Inr (pk, h1)"
    "\<forall>bs. contents (GetPrivate (h1[base ?s := bs]) pk) = replicate 32 7"
    by auto
  then have "NewKeyFromSeed_mem stub ?h ?s = Inr (pk, h1) \<and>
      contents (GetPrivate (h1[0 := replicate 32 8]) pk) = replicate 32 7"
    by (metis slice_ref.select_convs(1))
  with v l show ?thesis by blast
qed

text \<open>
  C7. \<open>Sign\<close> consults nothing but the key pair and the message: it always returns, its
  result has 64 bytes, a second call on the same key pair and message returns the same
  bytes in another new array and leaves the first result alone, and the method of
  \<open>crypto.Signer\<close> returns the same for every \<open>rand\<close>.
\<close>

theorem Sign_deterministic:
  assumes "valid_KeyPair h k"
  shows "\<exists>s1 h1 s2 h2.
           Sign_mem E h k message = Inr (s1, h1) \<and>
           Sign_mem E h1 k message = Inr (s2, h2) \<and>
           length (load h1 s1) = 2 * Size \<and>
           load h2 s2 = load h1 s1 \<and> load h2 s1 = load h1 s1 \<and>
           KeyPair_Sign E (deref h k) rand message opts =
             KeyPair_Sign E (deref h k) rand' message opts"
proof -
  from assms have a: "private_arr k < length h" "public_arr k < length h"
    by (simp_all add: valid_KeyPair_def)
  obtain sg where sg: "Sign E (deref h k) message = Inr sg" "length sg = 64"
    and m1: "Sign_mem E h k message =
               Inr (\<lparr>base = length h, off = 0, len = 2 * Size\<rparr>, h @ [sg])"
    using Sign_mem_spec [of E h k message] by blast
  have d: "deref (h @ [sg]) k = deref h k" using a by (rule deref_append)
  obtain sg' where sg': "Sign E (deref (h @ [sg]) k) message = Inr sg'"
    and m2: "Sign_mem E (h @ [sg]) k message =
               Inr (\<lparr>base = length (h @ [sg]), off = 0, len = 2 * Size\<rparr>, (h @ [sg]) @ [sg'])"
    using Sign_mem_spec [of E "h @ [sg]" k message] by blast
  from sg sg' d have e: "sg' = sg" by simp
  have "KeyPair_Sign E (deref h k) rand message opts =
          KeyPair_Sign E (deref h k) rand' message opts"
    by (simp add: KeyPair_Sign_def)
  moreover have "length (load (h @ [sg]) \<lparr>base = length h, off = 0, len = 2 * Size\<rparr>) = 2 * Size"
    using sg by (simp add: load_def Size_def)
  moreover have "load ((h @ [sg]) @ [sg']) \<lparr>base = length (h @ [sg]), off = 0, len = 2 * Size\<rparr> =
      load (h @ [sg]) \<lparr>base = length h, off = 0, len = 2 * Size\<rparr>"
    using e by (simp add: load_def nth_append)
  moreover have "load ((h @ [sg]) @ [sg']) \<lparr>base = length h, off = 0, len = 2 * Size\<rparr> =
      load (h @ [sg]) \<lparr>base = length h, off = 0, len = 2 * Size\<rparr>"
    by (simp add: load_def nth_append)
  ultimately show ?thesis using m1 m2 by blast
qed

theorem Sign_deterministic_witness:
  "valid_KeyPair [replicate 32 1, replicate 32 2] \<lparr>private_arr = 0, public_arr = 1\<rparr> \<and>
   (\<exists>s1 h1 s2 h2.
      Sign_mem stub [replicate 32 1, replicate 32 2] \<lparr>private_arr = 0, public_arr = 1\<rparr> [] =
        Inr (s1, h1) \<and>
      Sign_mem stub h1 \<lparr>private_arr = 0, public_arr = 1\<rparr> [] = Inr (s2, h2) \<and>
      load h2 s2 = load h1 s1)"
proof -
  have v: "valid_KeyPair [replicate 32 1, replicate 32 2] \<lparr>private_arr = 0, public_arr = 1\<rparr>"
    by (simp add: valid_KeyPair_def Size_def)
  from Sign_deterministic
    [OF v, where E = stub and message = "[]" and rand = "()" and rand' = "()"
       and opts = "\<lparr>HashFunc = 0\<rparr>"] v
  show ?thesis by blast
qed

end
